theory Spec2Isabelle
  imports Main "HOL-Library.FSet"
begin

section \<open>Python strings\<close>

text \<open>
  A Python \<^verbatim>\<open>str\<close> is modelled as a HOL \<^typ>\<open>string\<close>, one \<^typ>\<open>char\<close> per
  character. The string methods below are the ones \<^verbatim>\<open>giki_selenium.py\<close> calls; they
  follow CPython on ASCII text (\<^verbatim>\<open>lower\<close> only moves the letters A to Z, which is all
  that a comparison against the ASCII literals of the source can observe).
\<close>

definition lower_char :: "char \<Rightarrow> char" where
  "lower_char c =
     (if (65::nat) \<le> of_char c \<and> of_char c \<le> (90::nat) then char_of (of_char c + (32::nat)) else c)"

definition py_lower :: "string \<Rightarrow> string" where
  "py_lower s = map lower_char s"

definition startswith :: "string \<Rightarrow> string \<Rightarrow> bool" where
  \<comment> \<open>\<^verbatim>\<open>s.startswith(p)\<close>, the prefix first\<close>
  "startswith p s = (take (length p) s = p)"

definition endswith :: "string \<Rightarrow> string \<Rightarrow> bool" where
  \<comment> \<open>\<^verbatim>\<open>s.endswith(p)\<close>, the suffix first\<close>
  "endswith p s = (length p \<le> length s \<and> drop (length s - length p) s = p)"

fun contains :: "string \<Rightarrow> string \<Rightarrow> bool" where
  \<comment> \<open>\<^verbatim>\<open>sub in s\<close>\<close>
  "contains sub [] = (sub = [])"
| "contains sub (c # cs) = (startswith sub (c # cs) \<or> contains sub cs)"

definition is_space :: "char \<Rightarrow> bool" where
  \<comment> \<open>\<^verbatim>\<open>str.isspace\<close>, which is also what \<^verbatim>\<open>\s\<close> matches in \<^verbatim>\<open>re\<close>\<close>
  "is_space c = (of_char c \<in> {9, 10, 11, 12, 13, 28, 29, 30, 31, 32, 133, 160 :: nat})"

definition py_strip :: "string \<Rightarrow> string" where
  "py_strip s = rev (dropWhile is_space (rev (dropWhile is_space s)))"

definition rstrip_chr :: "char \<Rightarrow> string \<Rightarrow> string" where
  \<comment> \<open>\<^verbatim>\<open>s.rstrip(c)\<close> for a one-character argument\<close>
  "rstrip_chr c s = rev (dropWhile (\<lambda>x. x = c) (rev s))"

fun py_split_aux :: "string \<Rightarrow> string \<Rightarrow> string list" where
  "py_split_aux w [] = (if w = [] then [] else [rev w])"
| "py_split_aux w (c # cs) =
     (if is_space c then (if w = [] then py_split_aux [] cs else rev w # py_split_aux [] cs)
      else py_split_aux (c # w) cs)"

definition py_split :: "string \<Rightarrow> string list" where
  \<comment> \<open>\<^verbatim>\<open>s.split()\<close>: the maximal runs of non-whitespace\<close>
  "py_split s = py_split_aux [] s"

definition collapse_ws :: "string \<Rightarrow> string" where
  \<comment> \<open>\<^verbatim>\<open>re.sub(r"\s+", " ", s).strip()\<close>\<close>
  "collapse_ws s = py_strip (foldr (\<lambda>c acc. if is_space c
        then (case acc of [] \<Rightarrow> '' '' | d # _ \<Rightarrow> if d = CHR '' '' then acc else CHR '' '' # acc)
        else c # acc) s [])"

fun replace_aux :: "string \<Rightarrow> string \<Rightarrow> nat \<Rightarrow> string \<Rightarrow> string" where
  "replace_aux old new k [] = []"
| "replace_aux old new k (c # cs) =
     (if 0 < k then replace_aux old new (k - 1) cs
      else if startswith old (c # cs) then new @ replace_aux old new (length old - 1) cs
      else c # replace_aux old new 0 cs)"

definition py_replace :: "string \<Rightarrow> string \<Rightarrow> string \<Rightarrow> string" where
  \<comment> \<open>\<^verbatim>\<open>s.replace(old, new)\<close> for a non-empty \<^verbatim>\<open>old\<close>: leftmost matches, not overlapping\<close>
  "py_replace old new s = replace_aux old new 0 s"

definition partition_chr :: "char \<Rightarrow> string \<Rightarrow> string \<times> bool \<times> string" where
  \<comment> \<open>\<^verbatim>\<open>s.partition(c)\<close>: before the first \<^verbatim>\<open>c\<close>, whether there is one, after it\<close>
  "partition_chr c s =
     (takeWhile (\<lambda>x. x \<noteq> c) s, c \<in> set s, drop 1 (dropWhile (\<lambda>x. x \<noteq> c) s))"

fun split_chr :: "char \<Rightarrow> string \<Rightarrow> string list" where
  \<comment> \<open>\<^verbatim>\<open>s.split(c)\<close>\<close>
  "split_chr c [] = [[]]"
| "split_chr c (x # xs) =
     (case split_chr c xs of
        [] \<Rightarrow> [[x]]
      | w # ws \<Rightarrow> if x = c then [] # w # ws else (x # w) # ws)"

section \<open>The parts of \<^verbatim>\<open>urllib.parse\<close> that \<^verbatim>\<open>normalize_url\<close> and \<^verbatim>\<open>same_domain\<close> call\<close>

text \<open>
  The repository calls \<^verbatim>\<open>urlparse\<close>, \<^verbatim>\<open>urlunparse\<close>, \<^verbatim>\<open>parse_qsl\<close> and
  \<^verbatim>\<open>urlencode\<close> of the standard library. They are modelled after
  \<^verbatim>\<open>Lib/urllib/parse.py\<close> of CPython 3.11. Two checks of \<^verbatim>\<open>urlsplit\<close> that raise
  \<^verbatim>\<open>ValueError\<close> are not computed here and are parameters instead: whether a bracketed
  host is a valid IPv6 or IPvFuture literal, and the NFKC check of a non-ASCII host.
  Percent-escapes are decoded and encoded character by character, which is what CPython
  does on ASCII text.
\<close>

record url_checks =
  bracketed_host_ok :: "string \<Rightarrow> bool"
  nfkc_ok :: "string \<Rightarrow> bool"

record parse_result =
  scheme :: string
  netloc :: string
  path :: string
  params :: string
  query :: string
  fragment :: string

definition uses_netloc :: "string list" where
  "uses_netloc = ['''', ''ftp'', ''http'', ''gopher'', ''nntp'', ''telnet'',
     ''imap'', ''wais'', ''file'', ''mms'', ''https'', ''shttp'',
     ''snews'', ''prospero'', ''rtsp'', ''rtsps'', ''rtspu'', ''rsync'',
     ''svn'', ''svn+ssh'', ''sftp'', ''nfs'', ''git'', ''git+ssh'',
     ''ws'', ''wss'']"

definition uses_params :: "string list" where
  "uses_params = ['''', ''ftp'', ''hdl'', ''prospero'', ''http'', ''imap'',
     ''https'', ''shttp'', ''rtsp'', ''rtsps'', ''rtspu'', ''sip'',
     ''sips'', ''mms'', ''sftp'', ''tel'']"

definition is_alpha :: "char \<Rightarrow> bool" where
  "is_alpha c = (let n = (of_char c :: nat) in (65 \<le> n \<and> n \<le> 90) \<or> (97 \<le> n \<and> n \<le> 122))"

definition is_digit :: "char \<Rightarrow> bool" where
  "is_digit c = (let n = (of_char c :: nat) in 48 \<le> n \<and> n \<le> 57)"

definition scheme_char :: "char \<Rightarrow> bool" where
  "scheme_char c = (is_alpha c \<or> is_digit c \<or> c \<in> set ''+-.'')"

definition is_ascii :: "string \<Rightarrow> bool" where
  "is_ascii s = list_all (\<lambda>c. (of_char c :: nat) < 128) s"

definition split_scheme :: "string \<Rightarrow> string \<times> string" where
  \<comment> \<open>the scheme, lower-cased, when the text before the first colon is one\<close>
  "split_scheme url =
     (let pre = takeWhile (\<lambda>c. c \<noteq> CHR '':'') url in
      if CHR '':'' \<in> set url \<and> pre \<noteq> [] \<and> is_alpha (hd pre) \<and> list_all scheme_char pre
      then (py_lower pre, drop (length pre + 1) url)
      else ('''', url))"

definition splitnetloc :: "string \<Rightarrow> string \<times> string" where
  \<comment> \<open>\<^verbatim>\<open>_splitnetloc(url, 2)\<close>\<close>
  "splitnetloc url =
     (let r = drop 2 url; stop = (\<lambda>c. c \<in> set ''/?#'') in
      (takeWhile (\<lambda>c. \<not> stop c) r, dropWhile (\<lambda>c. \<not> stop c) r))"

definition netloc_raises :: "url_checks \<Rightarrow> string \<Rightarrow> bool" where
  \<comment> \<open>the places where \<^verbatim>\<open>urlsplit\<close> raises \<^verbatim>\<open>ValueError\<close>; none applies to an empty host\<close>
  "netloc_raises ck nl =
     (let ob = CHR ''['' \<in> set nl; cb = CHR '']'' \<in> set nl in
      (ob \<and> \<not> cb) \<or> (cb \<and> \<not> ob)
      \<or> (ob \<and> cb \<and> \<not> bracketed_host_ok ck
            (fst (partition_chr CHR '']'' (snd (snd (partition_chr CHR ''['' nl))))))
      \<or> (nl \<noteq> [] \<and> \<not> is_ascii nl \<and> \<not> nfkc_ok ck nl))"

definition urlsplit :: "url_checks \<Rightarrow> string \<Rightarrow> parse_result option" where
  "urlsplit ck u =
     (let url0 = dropWhile (\<lambda>c. (of_char c :: nat) \<le> 32) u;
          url1 = filter (\<lambda>c. c \<notin> set [CHR 0x09, CHR 0x0D, CHR 0x0A]) url0;
          (sch, url2) = split_scheme url1;
          (nl, url3) = (if take 2 url2 = ''//'' then splitnetloc url2 else ('''', url2))
      in if netloc_raises ck nl then None
         else
           let (url4, _, frag) = partition_chr CHR ''#'' url3;
               (url5, _, qry) = partition_chr CHR ''?'' url4
           in Some \<lparr>scheme = sch, netloc = nl, path = url5, params = '''',
                    query = qry, fragment = frag\<rparr>)"

definition splitparams :: "string \<Rightarrow> string \<times> string" where
  \<comment> \<open>\<^verbatim>\<open>_splitparams\<close>: the first semicolon of the last path segment\<close>
  "splitparams url =
     (if CHR ''/'' \<in> set url then
        (let seg = rev (takeWhile (\<lambda>c. c \<noteq> CHR ''/'') (rev url));
             hd_len = length url - length seg
         in if CHR '';'' \<in> set seg
            then (take hd_len url @ takeWhile (\<lambda>c. c \<noteq> CHR '';'') seg,
                  drop 1 (dropWhile (\<lambda>c. c \<noteq> CHR '';'') seg))
            else (url, ''''))
      else (takeWhile (\<lambda>c. c \<noteq> CHR '';'') url, drop 1 (dropWhile (\<lambda>c. c \<noteq> CHR '';'') url)))"

definition urlparse :: "url_checks \<Rightarrow> string \<Rightarrow> parse_result option" where
  "urlparse ck u =
     (case urlsplit ck u of
        None \<Rightarrow> None
      | Some r \<Rightarrow>
          if scheme r \<in> set uses_params \<and> CHR '';'' \<in> set (path r)
          then (let (p, ps) = splitparams (path r) in Some (r\<lparr>path := p, params := ps\<rparr>))
          else Some r)"

definition urlunsplit :: "parse_result \<Rightarrow> string" where
  \<comment> \<open>the \<^verbatim>\<open>params\<close> field is not read here\<close>
  "urlunsplit r =
     (let url0 = path r;
          url1 = (if netloc r \<noteq> [] \<or> (scheme r \<noteq> [] \<and> scheme r \<in> set uses_netloc)
                     \<or> take 2 url0 = ''//''
                  then ''//'' @ netloc r @
                       (if url0 \<noteq> [] \<and> take 1 url0 \<noteq> ''/'' then ''/'' @ url0 else url0)
                  else url0);
          url2 = (if scheme r \<noteq> [] then scheme r @ '':'' @ url1 else url1);
          url3 = (if query r \<noteq> [] then url2 @ ''?'' @ query r else url2)
      in if fragment r \<noteq> [] then url3 @ ''#'' @ fragment r else url3)"

definition urlunparse :: "parse_result \<Rightarrow> string" where
  "urlunparse r =
     urlunsplit (if params r \<noteq> [] then r\<lparr>path := path r @ '';'' @ params r\<rparr> else r)"

definition hex_val :: "char \<Rightarrow> nat option" where
  "hex_val c =
     (let n = (of_char c :: nat) in
      if 48 \<le> n \<and> n \<le> 57 then Some (n - 48)
      else if 65 \<le> n \<and> n \<le> 70 then Some (n - 55)
      else if 97 \<le> n \<and> n \<le> 102 then Some (n - 87)
      else None)"

fun unquote :: "string \<Rightarrow> string" where
  "unquote (p # a # b # cs) =
     (if p = CHR ''%'' then
        (case (hex_val a, hex_val b) of
           (Some x, Some y) \<Rightarrow> char_of (16 * x + y) # unquote cs
         | _ \<Rightarrow> p # unquote (a # b # cs))
      else p # unquote (a # b # cs))"
| "unquote cs = cs"

definition unquote_plus :: "string \<Rightarrow> string" where
  "unquote_plus s = unquote (map (\<lambda>c. if c = CHR ''+'' then CHR '' '' else c) s)"

definition hex_digit :: "nat \<Rightarrow> char" where
  "hex_digit n = (if n < 10 then char_of (48 + n) else char_of (55 + n))"

definition quote_plus :: "string \<Rightarrow> string" where
  "quote_plus s =
     concat (map (\<lambda>c. if is_alpha c \<or> is_digit c \<or> c \<in> set ''_.-~'' then [c]
                       else if c = CHR '' '' then ''+''
                       else [CHR ''%'', hex_digit ((of_char c :: nat) div 16),
                             hex_digit ((of_char c :: nat) mod 16)]) s)"

definition parse_qsl :: "string \<Rightarrow> (string \<times> string) list" where
  \<comment> \<open>\<^verbatim>\<open>parse_qsl(qs, keep_blank_values=True)\<close>\<close>
  "parse_qsl qs =
     (if qs = [] then []
      else map (\<lambda>nv. case partition_chr CHR ''='' nv of
                        (name, _, val) \<Rightarrow> (unquote_plus name, unquote_plus val))
             (filter (\<lambda>nv. nv \<noteq> []) (split_chr CHR ''&'' qs)))"

fun join_amp :: "string list \<Rightarrow> string" where
  "join_amp [] = ''''"
| "join_amp [x] = x"
| "join_amp (x # y # ys) = x @ ''&'' @ join_amp (y # ys)"

definition urlencode :: "(string \<times> string) list \<Rightarrow> string" where
  \<comment> \<open>\<^verbatim>\<open>urlencode(qs, doseq=True)\<close> on pairs of strings\<close>
  "urlencode qs = join_amp (map (\<lambda>(k, v). quote_plus k @ ''='' @ quote_plus v) qs)"

section \<open>Helpers of \<^verbatim>\<open>giki_selenium.py\<close>\<close>

definition tracking_key :: "string \<Rightarrow> bool" where
  "tracking_key k =
     (startswith ''utm_'' (py_lower k) \<or> py_lower k \<in> set [''fbclid'', ''gclid'', ''trk''])"

definition normalize_url :: "url_checks \<Rightarrow> string \<Rightarrow> string" where
  "normalize_url ck u =
     (case urlparse ck u of
        None \<Rightarrow> u
      | Some parsed0 \<Rightarrow>
          let parsed1 = (if scheme parsed0 = [] then parsed0\<lparr>scheme := ''https''\<rparr> else parsed0);
              parsed2 = parsed1\<lparr>fragment := ''''\<rparr>;
              qs = filter (\<lambda>(k, v). \<not> tracking_key k) (parse_qsl (query parsed2));
              new_q = urlencode qs;
              stripped = rstrip_chr CHR ''/'' (path parsed2);
              pth = (if stripped = [] then ''/'' else stripped)
          in urlunparse (parsed2\<lparr>query := new_q, path := pth\<rparr>))"

definition same_domain :: "url_checks \<Rightarrow> string \<Rightarrow> string \<Rightarrow> bool" where
  "same_domain ck url base =
     (case (urlparse ck url, urlparse ck base) of
        (Some pu, Some pb) \<Rightarrow>
          (let p = py_lower (netloc pu); b = py_lower (netloc pb)
           in p = b \<or> endswith (''.'' @ b) p)
      | _ \<Rightarrow> False)"

section \<open>The scraper's data and its surroundings\<close>

record PageRecord =
  url :: string
  title :: string
  description :: string
  content :: string
  word_count :: int

text \<open>
  What the crawler does to the outside world is kept as a trace of events, in the order
  in which the code performs them: a GET of the \<^verbatim>\<open>requests\<close> session, a call of
  \<^verbatim>\<open>fetch_via_selenium\<close> by the crawl loop, a page load of the browser driver, a
  per-page file written by \<^verbatim>\<open>save_page\<close>, a tick of the progress bar, the pause between
  two requests, the two files of \<^verbatim>\<open>save_aggregate\<close> and the shutdown of the driver.
\<close>

datatype event =
    HttpGet string
  | RenderAttempt string
  | DriverGet string
  | WritePage string PageRecord
  | Progress
  | Sleep
  | WriteAggregate "PageRecord list"
  | WriteStats int int int
  | DriverQuit

text \<open>
  Everything the code reads from its configuration, from the network, from the HTML
  parser and from the file system is a field of the environment. A URL is requested at
  most once per run by each fetcher (the loop marks it visited first), so a function from
  URLs to responses loses nothing. The parser fields stand for the calls of
  \<^verbatim>\<open>BeautifulSoup\<close>: \<^verbatim>\<open>soup_text\<close> is the text of the main region that
  \<^verbatim>\<open>extract_content\<close> selects, before whitespace is collapsed; \<^verbatim>\<open>soup_hrefs\<close> are the
  \<^verbatim>\<open>href\<close> values of the anchors, in document order; \<^verbatim>\<open>soup_fails\<close> says that
  parsing raises inside \<^verbatim>\<open>extract_content\<close>, where it is caught. The parser call of
  \<^verbatim>\<open>extract_links\<close> and the UTF-8 encoding in \<^verbatim>\<open>content_hash\<close> are taken to
  return: \<^verbatim>\<open>crawl\<close> does not catch what they raise, and how \<^verbatim>\<open>main\<close> reacts to
  an exception that leaves \<^verbatim>\<open>crawl\<close> is modelled separately below. In the scraper
  state, \<^verbatim>\<open>driver\<close> says that \<^verbatim>\<open>self.driver\<close> is not \<^verbatim>\<open>None\<close>.
\<close>

record env =
  checks :: url_checks
  cfg_base_url :: string
  max_pages :: int
  save_dir :: string
  use_renderer :: bool
  makedirs_ok :: bool
  chrome_launches :: bool
  timeout_sets :: bool
  rp_can_fetch :: "string \<Rightarrow> bool"
  http_get :: "string \<Rightarrow> string option"
  driver_page :: "string \<Rightarrow> string option"
  soup_fails :: "string \<Rightarrow> bool"
  soup_title :: "string \<Rightarrow> string"
  soup_text :: "string \<Rightarrow> string"
  soup_description :: "string \<Rightarrow> string"
  soup_hrefs :: "string \<Rightarrow> string list"
  urljoin :: "string \<Rightarrow> string \<Rightarrow> string"
  sha256_hex :: "string \<Rightarrow> string"
  page_write_ok :: "string \<Rightarrow> bool"
  agg_write_ok :: bool
  stats_write_ok :: bool

record scraper =
  base_url :: string
  visited_urls :: "string fset"
  to_visit :: "string list"
  records :: "PageRecord list"
  seen_hashes :: "string set"
  driver :: bool
  driver_ready :: bool
  trace :: "event list"

definition content_hash :: "env \<Rightarrow> string \<Rightarrow> string" where
  "content_hash e text = take 16 (sha256_hex e text)"

definition truthy :: "string option \<Rightarrow> bool" where
  \<comment> \<open>Python's truth value of an \<^verbatim>\<open>Optional[str]\<close>\<close>
  "truthy h = (case h of None \<Rightarrow> False | Some s \<Rightarrow> s \<noteq> [])"

definition can_fetch :: "env \<Rightarrow> string \<Rightarrow> bool" where
  \<comment> \<open>the answer of the robots parser, \<^verbatim>\<open>True\<close> where it raises\<close>
  "can_fetch e u = rp_can_fetch e u"

definition fetch_via_requests :: "env \<Rightarrow> string \<Rightarrow> string option \<times> event list" where
  "fetch_via_requests e u =
     (if \<not> can_fetch e u then (None, []) else (http_get e u, [HttpGet u]))"

definition fetch_via_selenium :: "env \<Rightarrow> bool \<Rightarrow> string \<Rightarrow> string option \<times> event list" where
  "fetch_via_selenium e ready u =
     (if \<not> ready then (None, [])
      else if \<not> can_fetch e u then (None, [])
      else (driver_page e u, [DriverGet u]))"

definition extract_content :: "env \<Rightarrow> string \<Rightarrow> string \<Rightarrow> PageRecord option" where
  "extract_content e html u =
     (if soup_fails e html then None
      else
        let content_text = collapse_ws (soup_text e html)
        in if content_text = [] then None
           else Some \<lparr>url = u, title = soup_title e html,
                      description = soup_description e html,
                      content = content_text,
                      word_count = int (length (py_split content_text))\<rparr>)"

definition skip_scheme :: "string \<Rightarrow> bool" where
  "skip_scheme href =
     (startswith ''mailto:'' href \<or> startswith ''tel:'' href \<or> startswith ''javascript:'' href)"

definition extract_links :: "env \<Rightarrow> string \<Rightarrow> string \<Rightarrow> string \<Rightarrow> string list" where
  \<comment> \<open>\<^verbatim>\<open>extract_links(html, base_url)\<close> of a scraper whose \<^verbatim>\<open>self.base_url\<close> is \<open>self_base\<close>\<close>
  "extract_links e self_base html page_url =
     (let links = map (\<lambda>href. normalize_url (checks e)
                         (urljoin e page_url (takeWhile (\<lambda>c. c \<noteq> CHR ''#'') href)))
                    (filter (\<lambda>href. \<not> skip_scheme href) (map py_strip (soup_hrefs e html)))
      in foldl (\<lambda>uniq l. if l \<notin> set uniq \<and> same_domain (checks e) l self_base
                          then uniq @ [l] else uniq) [] links)"

definition path_join :: "string \<Rightarrow> string \<Rightarrow> string" where
  \<comment> \<open>\<^verbatim>\<open>os.path.join(d, f)\<close> for a file name without a slash\<close>
  "path_join d f = (if d = [] \<or> endswith ''/'' d then d @ f else d @ ''/'' @ f)"

definition save_page :: "env \<Rightarrow> PageRecord \<Rightarrow> event list" where
  "save_page e r =
     (let key = py_replace ''/'' ''__'' (py_replace ''://'' ''_'' (url r));
          fname = path_join (save_dir e) (take 200 key @ ''.json'')
      in if page_write_ok e fname then [WritePage fname r] else [])"

definition render_markers :: "string list" where
  "render_markers = [''load more'', ''admin-ajax'', ''wp-json'', ''infinite'']"

definition needs_fallback :: "env \<Rightarrow> string option \<Rightarrow> bool" where
  \<comment> \<open>the condition of line 266\<close>
  "needs_fallback e html =
     ((case html of
         None \<Rightarrow> True
       | Some h \<Rightarrow> h = [] \<or> length h < 800
                   \<or> list_ex (\<lambda>tok. contains tok (py_lower h)) render_markers)
      \<and> use_renderer e)"

definition fetch_html :: "env \<Rightarrow> bool \<Rightarrow> string \<Rightarrow> string option \<times> event list" where
  \<comment> \<open>lines 264 to 270 of \<^verbatim>\<open>crawl\<close>\<close>
  "fetch_html e ready u =
     (let (html, ev1) = fetch_via_requests e u
      in if needs_fallback e html
         then (let (shtml, ev2) = fetch_via_selenium e ready u
               in (if truthy shtml then shtml else html, ev1 @ [RenderAttempt u] @ ev2))
         else (html, ev1))"

definition non_content :: "string \<Rightarrow> bool" where
  "non_content l =
     list_ex (\<lambda>x. contains x (py_lower l)) [''/wp-admin'', ''/wp-content/'', ''/feed'', ''/?s='']"

fun enqueue_links :: "string fset \<Rightarrow> string list \<Rightarrow> string list \<Rightarrow> string list" where
  \<comment> \<open>lines 287 to 291: the frontier after the loop over \<^verbatim>\<open>new_links\<close>\<close>
  "enqueue_links vis tv [] = tv"
| "enqueue_links vis tv (l # ls) =
     (if l |\<notin>| vis \<and> l \<notin> set tv
      then (if non_content l then enqueue_links vis tv ls else enqueue_links vis (tv @ [l]) ls)
      else enqueue_links vis tv ls)"

definition process_page :: "env \<Rightarrow> string \<Rightarrow> string \<Rightarrow> scraper \<Rightarrow> scraper" where
  \<comment> \<open>lines 278 to 291 of \<^verbatim>\<open>crawl\<close>\<close>
  "process_page e u html s =
     (case extract_content e html u of
        None \<Rightarrow> s
      | Some page_record \<Rightarrow>
          if 30 \<le> word_count page_record then
            (let h = content_hash e (content page_record)
             in if h \<notin> seen_hashes s
                then s\<lparr>seen_hashes := insert h (seen_hashes s),
                       records := records s @ [page_record],
                       trace := trace s @ save_page e page_record,
                       to_visit := enqueue_links (visited_urls s) (to_visit s)
                                     (extract_links e (base_url s) html u)\<rparr>
                else s)
          else s)"

definition crawl_step :: "env \<Rightarrow> scraper \<Rightarrow> scraper" where
  \<comment> \<open>one pass through the body of the \<^verbatim>\<open>while\<close> loop of \<^verbatim>\<open>crawl\<close>\<close>
  "crawl_step e s =
     (case to_visit s of
        [] \<Rightarrow> s
      | popped # rest \<Rightarrow>
          let s1 = s\<lparr>to_visit := rest\<rparr>;
              u = normalize_url (checks e) popped
          in if u |\<in>| visited_urls s1 then s1
             else if \<not> same_domain (checks e) u (base_url s1) then s1
             else if \<not> can_fetch e u
               then s1\<lparr>visited_urls := finsert u (visited_urls s1),
                       trace := trace s1 @ [Progress]\<rparr>
             else
               let s2 = s1\<lparr>visited_urls := finsert u (visited_urls s1)\<rparr>;
                   (html, evs) = fetch_html e (driver_ready s2) u;
                   s3 = s2\<lparr>trace := trace s2 @ evs\<rparr>
               in if \<not> truthy html then s3\<lparr>trace := trace s3 @ [Progress, Sleep]\<rparr>
                  else
                    let s4 = process_page e u (the html) s3
                    in s4\<lparr>trace := trace s4 @ [Progress, Sleep]\<rparr>)"

function crawl_loop :: "env \<Rightarrow> scraper \<Rightarrow> scraper" where
  "crawl_loop e s =
     (if to_visit s \<noteq> [] \<and> int (fcard (visited_urls s)) < max_pages e
      then crawl_loop e (crawl_step e s) else s)"
  by pat_completeness auto
termination
proof (relation "measures [\<lambda>(e, s). nat (max_pages e - int (fcard (visited_urls s))),
                            \<lambda>(e, s). length (to_visit s)]")
  show "wf (measures [\<lambda>(e, s). nat (max_pages e - int (fcard (visited_urls s))),
                      \<lambda>(e, s). length (to_visit s)])"
    by simp
next
  fix e :: env and s :: scraper
  assume a: "to_visit s \<noteq> [] \<and> int (fcard (visited_urls s)) < max_pages e"
  then have "(visited_urls (crawl_step e s) = visited_urls s
                \<and> length (to_visit (crawl_step e s)) < length (to_visit s))
             \<or> (\<exists>u. u |\<notin>| visited_urls s
                    \<and> visited_urls (crawl_step e s) = finsert u (visited_urls s))"
    by (auto simp: crawl_step_def process_page_def Let_def
             split: list.splits prod.splits option.splits)
  then consider
      (same) "visited_urls (crawl_step e s) = visited_urls s"
             "length (to_visit (crawl_step e s)) < length (to_visit s)"
    | (grew) u where "u |\<notin>| visited_urls s"
                     "visited_urls (crawl_step e s) = finsert u (visited_urls s)"
    by blast
  then show "((e, crawl_step e s), (e, s))
      \<in> measures [\<lambda>(e, s). nat (max_pages e - int (fcard (visited_urls s))),
                  \<lambda>(e, s). length (to_visit s)]"
  proof cases
    case same
    then show ?thesis by simp
  next
    case grew
    then have "fcard (visited_urls (crawl_step e s)) = Suc (fcard (visited_urls s))"
      by (simp add: fcard_finsert_disjoint)
    with a show ?thesis by simp
  qed
qed

declare crawl_loop.simps [simp del]

definition crawl :: "env \<Rightarrow> scraper \<Rightarrow> PageRecord list \<times> scraper" where
  \<comment> \<open>\<^verbatim>\<open>crawl\<close> returns the records and leaves the scraper in its final state\<close>
  "crawl e s = (let s' = crawl_loop e s in (records s', s'))"

definition init :: "env \<Rightarrow> scraper option" where
  \<comment> \<open>\<^verbatim>\<open>GIKIScraper.__init__\<close>; \<^verbatim>\<open>None\<close> when \<^verbatim>\<open>os.makedirs\<close> raises\<close>
  "init e =
     (let b = rstrip_chr CHR ''/'' (cfg_base_url e)
      in if \<not> makedirs_ok e then None
         else Some \<lparr>base_url = b, visited_urls = {||},
                    to_visit = [normalize_url (checks e) (b @ ''/events/'')],
                    records = [], seen_hashes = {},
                    driver = (use_renderer e \<and> chrome_launches e),
                    driver_ready = (use_renderer e \<and> chrome_launches e \<and> timeout_sets e),
                    trace = []\<rparr>)"

definition save_aggregate :: "env \<Rightarrow> scraper \<Rightarrow> bool \<times> scraper" where
  \<comment> \<open>the flag says that an \<^verbatim>\<open>OSError\<close> leaves the call; the average of the statistics, a
      float, is left out of the event\<close>
  "save_aggregate e s =
     (if records s = [] then (False, s)
      else if \<not> agg_write_ok e then (True, s)
      else
        let s1 = s\<lparr>trace := trace s @ [WriteAggregate (records s)]\<rparr>
        in if \<not> stats_write_ok e then (True, s1)
           else (False, s1\<lparr>trace := trace s1 @
                   [WriteStats (int (length (records s))) (sum_list (map word_count (records s)))
                      (int (fcard (visited_urls s)))]\<rparr>))"

definition close :: "scraper \<Rightarrow> scraper" where
  "close s = (if driver s then s\<lparr>trace := trace s @ [DriverQuit]\<rparr> else s)"

datatype crawl_exit = Returned | Interrupted | Failed

datatype exit_status = Clean | Propagated

fun main_from :: "env \<Rightarrow> crawl_exit \<Rightarrow> scraper \<Rightarrow> exit_status \<times> scraper" where
  \<comment> \<open>the \<^verbatim>\<open>try\<close> statement of \<^verbatim>\<open>main\<close>, from the way \<^verbatim>\<open>crawl\<close> ended (it returned, a
      \<^verbatim>\<open>KeyboardInterrupt\<close> or another exception left it) and the scraper at that moment\<close>
  "main_from e Returned s =
     (case save_aggregate e s of
        (False, s1) \<Rightarrow> (Clean, close s1)
      | (True, s1) \<Rightarrow> (Propagated, close (snd (save_aggregate e s1))))"
| "main_from e Interrupted s =
     (case save_aggregate e s of
        (False, s1) \<Rightarrow> (Clean, close s1)
      | (True, s1) \<Rightarrow> (Propagated, close s1))"
| "main_from e Failed s = (Propagated, close (snd (save_aggregate e s)))"

definition main :: "env \<Rightarrow> (exit_status \<times> scraper) option" where
  \<comment> \<open>a run in which nothing raises inside \<^verbatim>\<open>crawl\<close>\<close>
  "main e =
     (case init e of
        None \<Rightarrow> None
      | Some s0 \<Rightarrow> Some (main_from e Returned (snd (crawl e s0))))"

section \<open>Vocabulary of the properties\<close>


definition pushed :: "string fset \<Rightarrow> string list \<Rightarrow> string list \<Rightarrow> string list" where
  \<comment> \<open>the links that the loop of lines 287 to 291 appends to the frontier\<close>
  "pushed vis tv ls = drop (length tv) (enqueue_links vis tv ls)"

definition record_hash :: "env \<Rightarrow> PageRecord \<Rightarrow> string" where
  "record_hash e r = content_hash e (content r)"

definition min_words_inv :: "scraper \<Rightarrow> bool" where
  "min_words_inv s \<longleftrightarrow>
     (\<forall>r \<in> set (records s).
        30 \<le> word_count r \<and> word_count r = int (length (py_split (content r))))
     \<and> (\<forall>f r. WritePage f r \<in> set (trace s) \<longrightarrow> 30 \<le> word_count r)"



definition dedup_inv :: "env \<Rightarrow> scraper \<Rightarrow> bool" where
  \<comment> \<open>the digests of the records are pairwise different and are exactly the seen ones\<close>
  "dedup_inv e s \<longleftrightarrow>
     distinct (map (record_hash e) (records s))
     \<and> seen_hashes s = set (map (record_hash e) (records s))"

fun is_aggregate :: "event \<Rightarrow> bool" where
  "is_aggregate (WriteAggregate rs) = True"
| "is_aggregate _ = False"

section \<open>A small site to run the crawler on\<close>

text \<open>
  The site has six pages under \<^verbatim>\<open>https://x.edu\<close>. The events page has thirty words and
  links to the others; \<^verbatim>\<open>/a\<close> and \<^verbatim>\<open>/c\<close> serve the same thirty words, \<^verbatim>\<open>/b\<close> and
  \<^verbatim>\<open>/d\<close> the same two words, and robots.txt disallows \<^verbatim>\<open>/private\<close>. A page is its own
  text here, every \<^verbatim>\<open>href\<close> is an absolute path (for which \<^verbatim>\<open>urljoin\<close> puts the scheme
  and host of the page in front), and the digest of a text is the text, so that
  \<^verbatim>\<open>content_hash\<close> is its first sixteen characters.
\<close>

definition plain_checks :: url_checks where
  "plain_checks = \<lparr>bracketed_host_ok = (\<lambda>_. False), nfkc_ok = (\<lambda>_. True)\<rparr>"

definition seed_html :: string where
  "seed_html = ''s s s s s s s s s s s s s s s s s s s s s s s s s s s s s s''"

definition alpha_html :: string where
  "alpha_html = ''a a a a a a a a a a a a a a a a a a a a a a a a a a a a a a''"

definition demo_web :: "(string \<times> string) list" where
  "demo_web =
     [(''https://x.edu/events'', seed_html), (''https://x.edu/a'', alpha_html),
      (''https://x.edu/b'', ''too short''), (''https://x.edu/c'', alpha_html),
      (''https://x.edu/d'', ''too short''), (''https://x.edu/private'', alpha_html)]"

definition demo_env :: env where
  "demo_env =
     \<lparr>checks = plain_checks, cfg_base_url = ''https://x.edu/'', max_pages = 10,
      save_dir = ''data/raw/pages'', use_renderer = False, makedirs_ok = True,
      chrome_launches = False, timeout_sets = False,
      rp_can_fetch = (\<lambda>u. u \<noteq> ''https://x.edu/private''),
      http_get = map_of demo_web, driver_page = (\<lambda>_. None),
      soup_fails = (\<lambda>_. False), soup_title = (\<lambda>_. []), soup_text = (\<lambda>h. h),
      soup_description = (\<lambda>_. []),
      soup_hrefs = (\<lambda>h. if h = seed_html
                         then [''/a/'', ''/b#x'', ''mailto:q@x.edu'', ''/c'', ''/wp-admin/z'',
                               ''/a'', ''/private'', ''/d'']
                         else [''/events/'']),
      urljoin = (\<lambda>b h. ''https://x.edu'' @ h), sha256_hex = (\<lambda>t. t),
      page_write_ok = (\<lambda>_. True), agg_write_ok = True, stats_write_ok = True\<rparr>"

definition demo_start :: scraper where
  "demo_start =
     \<lparr>base_url = ''https://x.edu'', visited_urls = {||},
      to_visit = [''https://x.edu/events''], records = [], seen_hashes = {},
      driver = False, driver_ready = False, trace = []\<rparr>"

definition seed_record :: PageRecord where
  "seed_record =
     \<lparr>url = ''https://x.edu/events'', title = [], description = [],
      content = seed_html, word_count = 30\<rparr>"

definition alpha_record :: PageRecord where
  "alpha_record =
     \<lparr>url = ''https://x.edu/a'', title = [], description = [],
      content = alpha_html, word_count = 30\<rparr>"

definition demo_final :: scraper where
  "demo_final =
     \<lparr>base_url = ''https://x.edu'',
      visited_urls = {|''https://x.edu/events'', ''https://x.edu/a'', ''https://x.edu/b'',
                       ''https://x.edu/c'', ''https://x.edu/private'', ''https://x.edu/d''|},
      to_visit = [], records = [seed_record, alpha_record],
      seen_hashes = {take 16 seed_html, take 16 alpha_html},
      driver = False, driver_ready = False,
      trace = [HttpGet ''https://x.edu/events'',
               WritePage ''data/raw/pages/https_x.edu__events.json'' seed_record,
               Progress, Sleep,
               HttpGet ''https://x.edu/a'',
               WritePage ''data/raw/pages/https_x.edu__a.json'' alpha_record,
               Progress, Sleep,
               HttpGet ''https://x.edu/b'', Progress, Sleep,
               HttpGet ''https://x.edu/c'', Progress, Sleep,
               Progress,
               HttpGet ''https://x.edu/d'', Progress, Sleep]\<rparr>"



definition bracket_env :: env where
  \<comment> \<open>a base URL that \<^verbatim>\<open>urlparse\<close> rejects\<close>
  "bracket_env = demo_env\<lparr>cfg_base_url := ''https://[''\<rparr>"

definition bracket_start :: scraper where
  "bracket_start =
     \<lparr>base_url = ''https://['', visited_urls = {||},
      to_visit = [''https://[/events/''], records = [], seen_hashes = {},
      driver = False, driver_ready = False, trace = []\<rparr>"

definition down_env :: env where
  \<comment> \<open>the same site when every request fails\<close>
  "down_env = demo_env\<lparr>http_get := (\<lambda>_. None)\<rparr>"

definition down_final :: scraper where
  "down_final =
     \<lparr>base_url = ''https://x.edu'', visited_urls = {|''https://x.edu/events''|},
      to_visit = [], records = [], seen_hashes = {},
      driver = False, driver_ready = False,
      trace = [HttpGet ''https://x.edu/events'', Progress, Sleep]\<rparr>"






section \<open>How one pass of the loop changes the scraper\<close>

lemma crawl_loop_invariant:
  assumes "P s"
    and "\<And>t. P t \<Longrightarrow> to_visit t \<noteq> [] \<Longrightarrow> int (fcard (visited_urls t)) < max_pages e
            \<Longrightarrow> P (crawl_step e t)"
  shows "P (crawl_loop e s)"
  using assms
proof (induction e s rule: crawl_loop.induct)
  case (1 e s)
  show ?case
  proof (cases "to_visit s \<noteq> [] \<and> int (fcard (visited_urls s)) < max_pages e")
    case True
    then have "P (crawl_step e s)" using 1(2,3) by blast
    then have "P (crawl_loop e (crawl_step e s))" using 1(1) True 1(3) by blast
    then show ?thesis using True by (subst crawl_loop.simps) simp
  next
    case False
    then show ?thesis using 1(2) by (subst crawl_loop.simps) auto
  qed
qed


lemma process_page_cases:
  obtains (rejected) "process_page e u html s = s"
      "\<And>r. extract_content e html u = Some r \<Longrightarrow> 30 \<le> word_count r
            \<Longrightarrow> content_hash e (content r) \<in> seen_hashes s"
    | (accepted) r where "extract_content e html u = Some r" "30 \<le> word_count r"
        "content_hash e (content r) \<notin> seen_hashes s"
        "process_page e u html s =
           s\<lparr>seen_hashes := insert (content_hash e (content r)) (seen_hashes s),
             records := records s @ [r],
             trace := trace s @ save_page e r,
             to_visit := enqueue_links (visited_urls s) (to_visit s)
                           (extract_links e (base_url s) html u)\<rparr>"
  by (cases "extract_content e html u") (auto simp: process_page_def Let_def)

lemma crawl_step_cases:
  assumes "to_visit s = popped # rest"
  obtains
    (skipped) "normalize_url (checks e) popped |\<in>| visited_urls s
               \<or> \<not> same_domain (checks e) (normalize_url (checks e) popped) (base_url s)"
      "crawl_step e s = s\<lparr>to_visit := rest\<rparr>"
  | (denied) "normalize_url (checks e) popped |\<notin>| visited_urls s"
      "same_domain (checks e) (normalize_url (checks e) popped) (base_url s)"
      "\<not> can_fetch e (normalize_url (checks e) popped)"
      "crawl_step e s = s\<lparr>to_visit := rest,
          visited_urls := finsert (normalize_url (checks e) popped) (visited_urls s),
          trace := trace s @ [Progress]\<rparr>"
  | (no_html) "normalize_url (checks e) popped |\<notin>| visited_urls s"
      "same_domain (checks e) (normalize_url (checks e) popped) (base_url s)"
      "can_fetch e (normalize_url (checks e) popped)"
      "\<not> truthy (fst (fetch_html e (driver_ready s) (normalize_url (checks e) popped)))"
      "crawl_step e s = s\<lparr>to_visit := rest,
          visited_urls := finsert (normalize_url (checks e) popped) (visited_urls s),
          trace := trace s @ snd (fetch_html e (driver_ready s) (normalize_url (checks e) popped))
                     @ [Progress, Sleep]\<rparr>"
  | (page) html where "normalize_url (checks e) popped |\<notin>| visited_urls s"
      "same_domain (checks e) (normalize_url (checks e) popped) (base_url s)"
      "can_fetch e (normalize_url (checks e) popped)"
      "fst (fetch_html e (driver_ready s) (normalize_url (checks e) popped)) = Some html"
      "html \<noteq> []"
      "crawl_step e s =
         (let s4 = process_page e (normalize_url (checks e) popped) html
                     (s\<lparr>to_visit := rest,
                        visited_urls := finsert (normalize_url (checks e) popped) (visited_urls s),
                        trace := trace s @ snd (fetch_html e (driver_ready s)
                                                  (normalize_url (checks e) popped))\<rparr>)
          in s4\<lparr>trace := trace s4 @ [Progress, Sleep]\<rparr>)"
proof -
  let ?u = "normalize_url (checks e) popped"
  obtain h evs where f: "fetch_html e (driver_ready s) ?u = (h, evs)"
    by (cases "fetch_html e (driver_ready s) ?u")
  show ?thesis
  proof (cases "?u |\<in>| visited_urls s \<or> \<not> same_domain (checks e) ?u (base_url s)")
    case True
    then show ?thesis using assms skipped by (auto simp: crawl_step_def Let_def)
  next
    case ok: False
    show ?thesis
    proof (cases "can_fetch e ?u")
      case False
      then show ?thesis using assms ok denied by (auto simp: crawl_step_def Let_def)
    next
      case cf: True
      show ?thesis
      proof (cases "truthy h")
        case False
        then show ?thesis using assms ok cf f no_html by (auto simp: crawl_step_def Let_def)
      next
        case True
        then obtain html where "h = Some html" "html \<noteq> []"
          by (auto simp: truthy_def split: option.splits)
        then show ?thesis
          using assms ok cf f True page[of html] by (auto simp: crawl_step_def Let_def)
      qed
    qed
  qed
qed

lemma fetch_html_no_write [simp]:
  "WritePage f r \<notin> set (snd (fetch_html e ready u))"
  by (auto simp: fetch_html_def fetch_via_requests_def fetch_via_selenium_def Let_def
           split: if_splits prod.splits)



lemma save_page_write:
  "WritePage f r' \<in> set (save_page e r) \<Longrightarrow> r' = r"
  by (auto simp: save_page_def Let_def split: if_splits)

lemma save_page_no_get [simp]:
  "HttpGet v \<notin> set (save_page e r)" "DriverGet v \<notin> set (save_page e r)"
  by (auto simp: save_page_def Let_def split: if_splits)

lemma extract_content_word_count:
  "extract_content e html u = Some r \<Longrightarrow>
     url r = u \<and> content r \<noteq> [] \<and> word_count r = int (length (py_split (content r)))"
  by (auto simp: extract_content_def Let_def split: if_splits)

lemma min_words_step:
  assumes "min_words_inv s" "to_visit s \<noteq> []"
  shows "min_words_inv (crawl_step e s)"
proof -
  obtain popped rest where tv: "to_visit s = popped # rest"
    using assms(2) by (cases "to_visit s") auto
  let ?u = "normalize_url (checks e) popped"
  from tv show ?thesis
  proof (cases rule: crawl_step_cases[where e = e])
    case skipped
    then show ?thesis using assms(1) by (auto simp add: min_words_inv_def)
  next
    case denied
    then show ?thesis using assms(1) by (auto simp add: min_words_inv_def)
  next
    case no_html
    then show ?thesis using assms(1) by (auto simp add: min_words_inv_def)
  next
    case (page html)
    let ?s3 = "s\<lparr>to_visit := rest, visited_urls := finsert ?u (visited_urls s),
                 trace := trace s @ snd (fetch_html e (driver_ready s) ?u)\<rparr>"
    have s3: "min_words_inv ?s3"
      using assms(1) by (auto simp add: min_words_inv_def)
    show ?thesis
    proof (cases rule: process_page_cases[of e ?u html ?s3])
      case rejected
      then show ?thesis using page(6) s3 by (auto simp add: min_words_inv_def Let_def)
    next
      case (accepted r)
      then show ?thesis
        using page(6) s3 extract_content_word_count[of e html ?u r]
        by (auto simp add: min_words_inv_def Let_def dest: save_page_write)
    qed
  qed
qed

lemma init_min_words: "init e = Some s0 \<Longrightarrow> min_words_inv s0"
  by (auto simp: init_def min_words_inv_def Let_def split: if_splits)



lemma enqueue_links_decomp:
  "\<exists>new. enqueue_links vis tv ls = tv @ new \<and> distinct new \<and> set new \<inter> set tv = {}
         \<and> set new \<subseteq> {l \<in> set ls. l |\<notin>| vis \<and> \<not> non_content l}"
proof (induction ls arbitrary: tv)
  case Nil
  then show ?case by simp
next
  case (Cons l ls)
  show ?case
  proof (cases "l |\<notin>| vis \<and> l \<notin> set tv \<and> \<not> non_content l")
    case True
    from Cons.IH [of "tv @ [l]"] obtain new where
      n: "enqueue_links vis (tv @ [l]) ls = (tv @ [l]) @ new" "distinct new"
         "set new \<inter> set (tv @ [l]) = {}"
         "set new \<subseteq> {x \<in> set ls. x |\<notin>| vis \<and> \<not> non_content x}"
      by blast
    have "enqueue_links vis tv (l # ls) = tv @ (l # new)"
      using True n(1) by simp
    moreover have "distinct (l # new)" using n(2,3) by auto
    moreover have "set (l # new) \<inter> set tv = {}" using True n(3) by auto
    moreover have "set (l # new) \<subseteq> {x \<in> set (l # ls). x |\<notin>| vis \<and> \<not> non_content x}"
      using True n(4) by auto
    ultimately show ?thesis by blast
  next
    case False
    from Cons.IH [of tv] obtain new where
      n: "enqueue_links vis tv ls = tv @ new" "distinct new" "set new \<inter> set tv = {}"
         "set new \<subseteq> {x \<in> set ls. x |\<notin>| vis \<and> \<not> non_content x}"
      by blast
    have "enqueue_links vis tv (l # ls) = tv @ new"
      using False n(1) by auto
    moreover have "set new \<subseteq> {x \<in> set (l # ls). x |\<notin>| vis \<and> \<not> non_content x}"
      using n(4) by auto
    ultimately show ?thesis using n(2,3) by blast
  qed
qed

lemma pushed_props:
  "enqueue_links vis tv ls = tv @ pushed vis tv ls"
  "distinct (pushed vis tv ls)"
  "l \<in> set (pushed vis tv ls) \<Longrightarrow> \<not> non_content l \<and> l \<in> set ls \<and> l |\<notin>| vis \<and> l \<notin> set tv"
proof -
  obtain new where
    n: "enqueue_links vis tv ls = tv @ new" "distinct new" "set new \<inter> set tv = {}"
       "set new \<subseteq> {x \<in> set ls. x |\<notin>| vis \<and> \<not> non_content x}"
    using enqueue_links_decomp by blast
  then have p: "pushed vis tv ls = new" by (simp add: pushed_def)
  show "enqueue_links vis tv ls = tv @ pushed vis tv ls" using n(1) p by simp
  show "distinct (pushed vis tv ls)" using n(2) p by simp
  show "l \<in> set (pushed vis tv ls)
          \<Longrightarrow> \<not> non_content l \<and> l \<in> set ls \<and> l |\<notin>| vis \<and> l \<notin> set tv"
    using n(3,4) p by auto
qed

lemma uniq_fold:
  "distinct acc \<Longrightarrow>
   distinct (foldl (\<lambda>uniq l. if l \<notin> set uniq \<and> ok l then uniq @ [l] else uniq) acc links)
   \<and> set (foldl (\<lambda>uniq l. if l \<notin> set uniq \<and> ok l then uniq @ [l] else uniq) acc links)
       \<subseteq> set acc \<union> {l \<in> set links. ok l}"
proof (induction links arbitrary: acc)
  case Nil
  then show ?case by simp
next
  case (Cons l links)
  show ?case
  proof (cases "l \<notin> set acc \<and> ok l")
    case True
    then have "distinct (acc @ [l])" using Cons.prems by simp
    from Cons.IH [OF this] True show ?thesis by auto
  next
    case False
    from Cons.IH [OF Cons.prems] False show ?thesis by auto
  qed
qed

lemma extract_links_props:
  "distinct (extract_links e b html u)"
  "l \<in> set (extract_links e b html u) \<Longrightarrow> same_domain (checks e) l b"
  using uniq_fold [of "[]" "\<lambda>l. same_domain (checks e) l b"]
  by (auto simp: extract_links_def Let_def)

lemma crawl_step_frontier:
  assumes "to_visit s = popped # rest"
  shows "\<exists>new. to_visit (crawl_step e s) = rest @ new \<and> distinct new
              \<and> (\<forall>l \<in> set new. l |\<notin>| visited_urls (crawl_step e s) \<and> l \<notin> set rest)"
proof -
  let ?u = "normalize_url (checks e) popped"
  from assms show ?thesis
  proof (cases rule: crawl_step_cases[where e = e])
    case (page html)
    let ?s3 = "s\<lparr>to_visit := rest, visited_urls := finsert ?u (visited_urls s),
                 trace := trace s @ snd (fetch_html e (driver_ready s) ?u)\<rparr>"
    show ?thesis
    proof (cases rule: process_page_cases[of e ?u html ?s3])
      case rejected
      then show ?thesis using page(6) by (auto simp: Let_def)
    next
      case (accepted r)
      let ?ls = "extract_links e (base_url s) html ?u"
      let ?vis = "finsert ?u (visited_urls s)"
      have tv: "to_visit (crawl_step e s) = rest @ pushed ?vis rest ?ls"
        and vis: "visited_urls (crawl_step e s) = ?vis"
        using accepted(4) page(6) pushed_props(1) [where vis = ?vis and tv = rest and ls = ?ls]
        by (simp_all add: Let_def)
      have "distinct (pushed ?vis rest ?ls)"
        by (rule pushed_props(2))
      moreover have "\<forall>l \<in> set (pushed ?vis rest ?ls). l |\<notin>| ?vis \<and> l \<notin> set rest"
        using pushed_props(3) [where vis = ?vis and tv = rest and ls = ?ls] by blast
      ultimately show ?thesis
        using tv vis by metis
    qed
  qed auto
qed

lemma distinct_frontier_step:
  assumes "distinct (to_visit s)" "to_visit s \<noteq> []"
  shows "distinct (to_visit (crawl_step e s))"
proof -
  obtain popped rest where tv: "to_visit s = popped # rest"
    using assms(2) by (cases "to_visit s") auto
  from crawl_step_frontier [OF tv, of e] obtain new where
    "to_visit (crawl_step e s) = rest @ new" "distinct new"
    "\<forall>l \<in> set new. l |\<notin>| visited_urls (crawl_step e s) \<and> l \<notin> set rest"
    by blast
  then show ?thesis using assms(1) tv by auto
qed

lemma distinct_hash_content:
  "distinct (map (record_hash e) rs) \<Longrightarrow> distinct (map content rs)"
  by (induction rs) (auto simp: record_hash_def)

lemma one_with_hash:
  "distinct (map f xs) \<Longrightarrow> y \<in> set (map f xs) \<Longrightarrow> length (filter (\<lambda>x. f x = y) xs) = 1"
proof (induction xs)
  case Nil
  then show ?case by simp
next
  case (Cons x xs)
  show ?case
  proof (cases "f x = y")
    case True
    then have "y \<notin> set (map f xs)" using Cons.prems(1) by auto
    then have "filter (\<lambda>x. f x = y) xs = []" by (auto simp: filter_empty_conv)
    with True show ?thesis by simp
  next
    case False
    then show ?thesis using Cons by auto
  qed
qed

lemma process_page_dedup:
  assumes "dedup_inv e s"
  shows "dedup_inv e (process_page e u html s)"
proof (cases rule: process_page_cases[of e u html s])
  case rejected
  then show ?thesis using assms by simp
next
  case (accepted r)
  then show ?thesis using assms by (auto simp: dedup_inv_def record_hash_def)
qed

lemma process_page_accepts:
  assumes "dedup_inv e s" "extract_content e html u = Some r" "30 \<le> word_count r"
  shows "(record_hash e r \<in> seen_hashes s \<longrightarrow> process_page e u html s = s)
         \<and> (record_hash e r \<notin> seen_hashes s
              \<longrightarrow> records (process_page e u html s) = records s @ [r]
                  \<and> trace (process_page e u html s) = trace s @ save_page e r)
         \<and> length (filter (\<lambda>x. record_hash e x = record_hash e r)
                     (records (process_page e u html s))) = 1"
proof (cases "record_hash e r \<in> seen_hashes s")
  case True
  then have same: "process_page e u html s = s"
    using assms(2,3) by (simp add: process_page_def record_hash_def Let_def)
  have "length (filter (\<lambda>x. record_hash e x = record_hash e r) (records s)) = 1"
    using assms(1) True by (intro one_with_hash) (auto simp: dedup_inv_def)
  with same True show ?thesis by simp
next
  case False
  then have acc: "records (process_page e u html s) = records s @ [r]"
      "trace (process_page e u html s) = trace s @ save_page e r"
    using assms(2,3) by (simp_all add: process_page_def record_hash_def Let_def)
  have "filter (\<lambda>x. record_hash e x = record_hash e r) (records s) = []"
    using assms(1) False by (fastforce simp: dedup_inv_def filter_empty_conv image_iff)
  with acc False show ?thesis by simp
qed

lemma dedup_step:
  assumes "dedup_inv e s" "to_visit s \<noteq> []"
  shows "dedup_inv e (crawl_step e s)"
proof -
  obtain popped rest where tv: "to_visit s = popped # rest"
    using assms(2) by (cases "to_visit s") auto
  let ?u = "normalize_url (checks e) popped"
  from tv show ?thesis
  proof (cases rule: crawl_step_cases[where e = e])
    case (page html)
    let ?s3 = "s\<lparr>to_visit := rest, visited_urls := finsert ?u (visited_urls s),
                 trace := trace s @ snd (fetch_html e (driver_ready s) ?u)\<rparr>"
    have "dedup_inv e ?s3" using assms(1) by (simp add: dedup_inv_def)
    then have "dedup_inv e (process_page e ?u html ?s3)" by (rule process_page_dedup)
    then show ?thesis using page(6) by (simp add: dedup_inv_def Let_def)
  qed (use assms(1) in \<open>auto simp: dedup_inv_def\<close>)
qed

lemma records_step_grow:
  assumes "to_visit s \<noteq> []"
  shows "\<exists>new. records (crawl_step e s) = records s @ new"
proof -
  obtain popped rest where tv: "to_visit s = popped # rest"
    using assms by (cases "to_visit s") auto
  let ?u = "normalize_url (checks e) popped"
  from tv show ?thesis
  proof (cases rule: crawl_step_cases[where e = e])
    case (page html)
    then show ?thesis
      by (cases rule: process_page_cases[of e ?u html
            "s\<lparr>to_visit := rest, visited_urls := finsert ?u (visited_urls s),
               trace := trace s @ snd (fetch_html e (driver_ready s) ?u)\<rparr>"])
         (auto simp: Let_def)
  qed auto
qed

lemma records_loop_grow:
  "\<exists>new. records (crawl_loop e s) = records s @ new"
proof (rule crawl_loop_invariant [where P = "\<lambda>t. \<exists>new. records t = records s @ new"])
  show "\<exists>new. records s = records s @ new" by simp
next
  fix t :: scraper
  assume "\<exists>new. records t = records s @ new" "to_visit t \<noteq> []"
  then show "\<exists>new. records (crawl_step e t) = records s @ new"
    using records_step_grow [of t e] by auto
qed

section \<open>Runs on the small site\<close>

lemma demo_init: "init demo_env = Some demo_start"
  by code_simp

lemma demo_run: "crawl_loop demo_env demo_start = demo_final"
  by code_simp



lemma bracket_init: "init bracket_env = Some bracket_start"
  by code_simp

lemma bracket_step: "crawl_step bracket_env bracket_start = bracket_start\<lparr>to_visit := []\<rparr>"
  by code_simp

lemma bracket_run: "crawl_loop bracket_env bracket_start = bracket_start\<lparr>to_visit := []\<rparr>"
  by code_simp

lemma down_run: "main down_env = Some (Clean, down_final)"
  by code_simp


lemma short_page:
  "extract_content demo_env ''too short'' ''https://x.edu/b''
     = Some \<lparr>url = ''https://x.edu/b'', title = [], description = [],
              content = ''too short'', word_count = 2\<rparr>"
  "extract_content demo_env ''too short'' ''https://x.edu/d''
     = Some \<lparr>url = ''https://x.edu/d'', title = [], description = [],
              content = ''too short'', word_count = 2\<rparr>"
  "http_get demo_env ''https://x.edu/b'' = Some ''too short''"
  "http_get demo_env ''https://x.edu/d'' = Some ''too short''"
  by code_simp+

lemma same_pages:
  "http_get demo_env ''https://x.edu/a'' = Some alpha_html"
  "http_get demo_env ''https://x.edu/c'' = Some alpha_html"
  "extract_content demo_env alpha_html ''https://x.edu/a'' = Some alpha_record"
  "extract_content demo_env alpha_html ''https://x.edu/c''
     = Some (alpha_record\<lparr>url := ''https://x.edu/c''\<rparr>)"
  by code_simp+


lemma seed_links:
  "extract_links demo_env ''https://x.edu'' seed_html ''https://x.edu/events''
     = [''https://x.edu/a'', ''https://x.edu/b'', ''https://x.edu/c'',
        ''https://x.edu/wp-admin/z'', ''https://x.edu/private'', ''https://x.edu/d'']"
  by code_simp

lemma seed_pushed:
  "pushed {|''https://x.edu/events''|} []
     [''https://x.edu/a'', ''https://x.edu/b'', ''https://x.edu/c'',
        ''https://x.edu/wp-admin/z'', ''https://x.edu/private'', ''https://x.edu/d'']
   = [''https://x.edu/a'', ''https://x.edu/b'', ''https://x.edu/c'',
      ''https://x.edu/private'', ''https://x.edu/d'']"
  by code_simp

lemma demo_first_step:
  "normalize_url (checks demo_env) ''https://x.edu/events'' = ''https://x.edu/events''"
  "same_domain (checks demo_env) ''https://x.edu/events'' (base_url demo_start)"
  "to_visit (crawl_step demo_env demo_start)
     = [''https://x.edu/a'', ''https://x.edu/b'', ''https://x.edu/c'',
        ''https://x.edu/private'', ''https://x.edu/d'']"
  by code_simp+


section \<open>Minimum content\<close>

text \<open>
  Claim C1: in every crawl run a page record is persisted (handed to \<^verbatim>\<open>save_page\<close> and
  appended to the record sequence) only when its word count is at least 30, the word count
  being the number of whitespace-separated words of its content; and a fetched page whose
  extracted content has fewer than 30 words, or none, leaves the scraper as it was: no
  record is stored, no file is written and no digest is added to the seen ones.
\<close>

theorem min_content_invariant:
  assumes "init e = Some s0"
  shows "(\<forall>r \<in> set (records (crawl_loop e s0)).
            30 \<le> word_count r \<and> word_count r = int (length (py_split (content r))))
         \<and> (\<forall>f r. WritePage f r \<in> set (trace (crawl_loop e s0)) \<longrightarrow> 30 \<le> word_count r)
         \<and> ((\<forall>r. extract_content e html u = Some r \<longrightarrow> word_count r < 30)
              \<longrightarrow> process_page e u html s = s)"
proof -
  have "min_words_inv (crawl_loop e s0)"
    by (rule crawl_loop_invariant) (auto intro: init_min_words assms min_words_step)
  moreover have "(\<forall>r. extract_content e html u = Some r \<longrightarrow> word_count r < 30)
                   \<longrightarrow> process_page e u html s = s"
    by (cases rule: process_page_cases[of e u html s]) auto
  ultimately show ?thesis
    unfolding min_words_inv_def by blast
qed

text \<open>On the small site: the record of \<^verbatim>\<open>/a\<close> is kept, the two words of \<^verbatim>\<open>/b\<close> are not.\<close>

theorem min_content_invariant_witness:
  "init demo_env = Some demo_start
   \<and> alpha_record \<in> set (records (crawl_loop demo_env demo_start))
   \<and> 30 \<le> word_count alpha_record
   \<and> word_count alpha_record = int (length (py_split (content alpha_record)))
   \<and> extract_content demo_env ''too short'' ''https://x.edu/b''
       = Some \<lparr>url = ''https://x.edu/b'', title = [], description = [],
                content = ''too short'', word_count = 2\<rparr>
   \<and> process_page demo_env ''https://x.edu/b'' ''too short'' demo_final = demo_final"
proof -
  note inst = min_content_invariant [OF demo_init, of "''too short''" "''https://x.edu/b''"
      demo_final]
  have mem: "alpha_record \<in> set (records (crawl_loop demo_env demo_start))"
    by (simp add: demo_run demo_final_def)
  have "process_page demo_env ''https://x.edu/b'' ''too short'' demo_final = demo_final"
    using inst by (simp add: short_page(1))
  with inst mem show ?thesis
    using demo_init short_page(1) by blast
qed

section \<open>Deduplication by content\<close>

text \<open>
  Claim C2, as amended: of two distinct URLs whose extracted, whitespace-normalized content
  is identical and has at least 30 words, the one processed first is persisted when its
  digest has not been seen, and the later one is discarded without any change to the
  scraper; at every moment of a run the records carry pairwise different digests, hence
  pairwise different contents, exactly one record carries the digest of a page that has
  just been processed, and records are only ever appended, so the first one stays.
\<close>

theorem dedup_first_seen:
  assumes "init e = Some s0"
  shows "dedup_inv e (crawl_loop e s0)
         \<and> distinct (map content (records (crawl_loop e s0)))
         \<and> (\<exists>new. records (crawl_loop e s) = records s @ new)
         \<and> (dedup_inv e s \<and> extract_content e html u = Some r \<and> 30 \<le> word_count r
             \<longrightarrow> (record_hash e r \<in> seen_hashes s \<longrightarrow> process_page e u html s = s)
                 \<and> (record_hash e r \<notin> seen_hashes s
                      \<longrightarrow> records (process_page e u html s) = records s @ [r]
                          \<and> trace (process_page e u html s) = trace s @ save_page e r)
                 \<and> length (filter (\<lambda>x. record_hash e x = record_hash e r)
                             (records (process_page e u html s))) = 1
                 \<and> dedup_inv e (process_page e u html s))"
proof -
  have "dedup_inv e s0"
    using assms by (auto simp: init_def dedup_inv_def Let_def split: if_splits)
  then have inv: "dedup_inv e (crawl_loop e s0)"
    by (rule crawl_loop_invariant) (rule dedup_step)
  then have "distinct (map content (records (crawl_loop e s0)))"
    by (auto simp: dedup_inv_def intro: distinct_hash_content)
  with inv records_loop_grow [of e s] process_page_accepts [of e s html u r]
    process_page_dedup [of e s u html]
  show ?thesis by blast
qed

text \<open>
  On the small site \<^verbatim>\<open>/a\<close> and \<^verbatim>\<open>/c\<close> serve the same thirty words: both are visited,
  the record of \<^verbatim>\<open>/a\<close> is the only one with that content, and processing \<^verbatim>\<open>/c\<close> after
  it changes nothing.
\<close>

theorem dedup_first_seen_witness:
  "init demo_env = Some demo_start
   \<and> extract_content demo_env alpha_html ''https://x.edu/a'' = Some alpha_record
   \<and> extract_content demo_env alpha_html ''https://x.edu/c''
       = Some (alpha_record\<lparr>url := ''https://x.edu/c''\<rparr>)
   \<and> ''https://x.edu/a'' |\<in>| visited_urls (crawl_loop demo_env demo_start)
   \<and> ''https://x.edu/c'' |\<in>| visited_urls (crawl_loop demo_env demo_start)
   \<and> records (crawl_loop demo_env demo_start) = [seed_record, alpha_record]
   \<and> distinct (map content (records (crawl_loop demo_env demo_start)))
   \<and> process_page demo_env ''https://x.edu/c'' alpha_html demo_final = demo_final"
proof -
  note inst = dedup_first_seen [OF demo_init, where s = demo_final and html = alpha_html
      and u = "''https://x.edu/c''" and r = "alpha_record\<lparr>url := ''https://x.edu/c''\<rparr>"]
  have inv: "dedup_inv demo_env demo_final"
    using inst by (simp add: demo_run)
  have wc: "30 \<le> word_count (alpha_record\<lparr>url := ''https://x.edu/c''\<rparr>)"
    by (simp add: alpha_record_def)
  have seen: "record_hash demo_env (alpha_record\<lparr>url := ''https://x.edu/c''\<rparr>)
                \<in> seen_hashes demo_final"
    by (simp add: record_hash_def content_hash_def demo_env_def demo_final_def alpha_record_def)
  have "process_page demo_env ''https://x.edu/c'' alpha_html demo_final = demo_final"
    using inst inv wc seen same_pages(4) by blast
  moreover have "distinct (map content (records (crawl_loop demo_env demo_start)))"
    using inst by blast
  moreover have "''https://x.edu/a'' |\<in>| visited_urls (crawl_loop demo_env demo_start)"
    "''https://x.edu/c'' |\<in>| visited_urls (crawl_loop demo_env demo_start)"
    "records (crawl_loop demo_env demo_start) = [seed_record, alpha_record]"
    by (simp_all add: demo_run demo_final_def)
  ultimately show ?thesis
    using demo_init same_pages(3,4) by blast
qed

text \<open>
  The claim as it was stated promises exactly one record for any two URLs with identical
  content. On the small site \<^verbatim>\<open>/b\<close> and \<^verbatim>\<open>/d\<close> are both fetched and both yield the
  content \<^verbatim>\<open>too short\<close>; the run ends with no record of that content.
\<close>

theorem identical_short_pages_leave_no_record:
  "init demo_env = Some demo_start
   \<and> http_get demo_env ''https://x.edu/b'' = Some ''too short''
   \<and> http_get demo_env ''https://x.edu/d'' = Some ''too short''
   \<and> extract_content demo_env ''too short'' ''https://x.edu/b''
       = Some \<lparr>url = ''https://x.edu/b'', title = [], description = [],
                content = ''too short'', word_count = 2\<rparr>
   \<and> extract_content demo_env ''too short'' ''https://x.edu/d''
       = Some \<lparr>url = ''https://x.edu/d'', title = [], description = [],
                content = ''too short'', word_count = 2\<rparr>
   \<and> HttpGet ''https://x.edu/b'' \<in> set (trace (crawl_loop demo_env demo_start))
   \<and> HttpGet ''https://x.edu/d'' \<in> set (trace (crawl_loop demo_env demo_start))
   \<and> ''too short'' \<notin> set (map content (records (crawl_loop demo_env demo_start)))"
proof -
  have "HttpGet ''https://x.edu/b'' \<in> set (trace (crawl_loop demo_env demo_start))"
    "HttpGet ''https://x.edu/d'' \<in> set (trace (crawl_loop demo_env demo_start))"
    "''too short'' \<notin> set (map content (records (crawl_loop demo_env demo_start)))"
    by (simp_all add: demo_run demo_final_def seed_record_def alpha_record_def
          seed_html_def alpha_html_def)
  with demo_init short_page show ?thesis by blast
qed

section \<open>Termination and the page budget\<close>



section \<open>Robots compliance\<close>



section \<open>Escalation to the rendered fetch\<close>



section \<open>Frontier and visited set\<close>

text \<open>
  Claim C6, as amended: when the loop dequeues a URL it normalizes it; if the normalized
  URL is in the crawl's domain it is in the visited set after the pass, and a pass adds
  at most this one URL and only if it was not there before, so no URL is added twice; if
  the normalized URL is outside the domain the pass only drops it from the frontier,
  without marking it visited. A link is appended to the frontier only if it is neither
  in the visited set nor in the frontier at that moment, so the frontier of a run never
  holds a URL twice.
\<close>

theorem frontier_bookkeeping:
  assumes "to_visit s = popped # rest"
  shows "(same_domain (checks e) (normalize_url (checks e) popped) (base_url s)
            \<longrightarrow> normalize_url (checks e) popped |\<in>| visited_urls (crawl_step e s))
         \<and> (visited_urls (crawl_step e s) = visited_urls s
            \<or> (normalize_url (checks e) popped |\<notin>| visited_urls s
               \<and> visited_urls (crawl_step e s)
                   = finsert (normalize_url (checks e) popped) (visited_urls s)))
         \<and> (\<not> same_domain (checks e) (normalize_url (checks e) popped) (base_url s)
              \<and> normalize_url (checks e) popped |\<notin>| visited_urls s
            \<longrightarrow> crawl_step e s = s\<lparr>to_visit := rest\<rparr>)
         \<and> (\<exists>new. to_visit (crawl_step e s) = rest @ new \<and> distinct new
                \<and> (\<forall>l \<in> set new. l |\<notin>| visited_urls (crawl_step e s) \<and> l \<notin> set rest))
         \<and> (distinct (to_visit s) \<longrightarrow> distinct (to_visit (crawl_step e s)))
         \<and> (init e = Some s0 \<longrightarrow> distinct (to_visit (crawl_loop e s0)))"
proof -
  let ?u = "normalize_url (checks e) popped"
  have vis: "(same_domain (checks e) ?u (base_url s) \<longrightarrow> ?u |\<in>| visited_urls (crawl_step e s))
       \<and> (visited_urls (crawl_step e s) = visited_urls s
            \<or> (?u |\<notin>| visited_urls s
               \<and> visited_urls (crawl_step e s) = finsert ?u (visited_urls s)))
       \<and> (\<not> same_domain (checks e) ?u (base_url s) \<and> ?u |\<notin>| visited_urls s
            \<longrightarrow> crawl_step e s = s\<lparr>to_visit := rest\<rparr>)"
    using assms
  proof (cases rule: crawl_step_cases[where e = e])
    case (page html)
    then show ?thesis
      by (cases rule: process_page_cases[of e ?u html
            "s\<lparr>to_visit := rest, visited_urls := finsert ?u (visited_urls s),
               trace := trace s @ snd (fetch_html e (driver_ready s) ?u)\<rparr>"])
         (auto simp: Let_def)
  qed auto
  have front: "\<exists>new. to_visit (crawl_step e s) = rest @ new \<and> distinct new
                \<and> (\<forall>l \<in> set new. l |\<notin>| visited_urls (crawl_step e s) \<and> l \<notin> set rest)"
    by (rule crawl_step_frontier [OF assms])
  have keep: "distinct (to_visit s) \<longrightarrow> distinct (to_visit (crawl_step e s))"
    using distinct_frontier_step [of s e] assms by simp
  have run: "init e = Some s0 \<longrightarrow> distinct (to_visit (crawl_loop e s0))"
  proof
    assume i: "init e = Some s0"
    then have "distinct (to_visit s0)"
      by (auto simp: init_def Let_def split: if_splits)
    then show "distinct (to_visit (crawl_loop e s0))"
      by (rule crawl_loop_invariant [where P = "\<lambda>t. distinct (to_visit t)"])
         (rule distinct_frontier_step)
  qed
  from vis front keep run show ?thesis by blast
qed

text \<open>The first pass on the small site: the events page is marked, five links are queued.\<close>

theorem frontier_bookkeeping_witness:
  "to_visit demo_start = [''https://x.edu/events'']
   \<and> same_domain (checks demo_env) ''https://x.edu/events'' (base_url demo_start)
   \<and> ''https://x.edu/events'' |\<in>| visited_urls (crawl_step demo_env demo_start)
   \<and> visited_urls (crawl_step demo_env demo_start) = {|''https://x.edu/events''|}
   \<and> to_visit (crawl_step demo_env demo_start)
       = [''https://x.edu/a'', ''https://x.edu/b'', ''https://x.edu/c'',
          ''https://x.edu/private'', ''https://x.edu/d'']
   \<and> distinct (to_visit (crawl_step demo_env demo_start))"
proof -
  have tv: "to_visit demo_start = [''https://x.edu/events'']"
    by (simp add: demo_start_def)
  have v0: "visited_urls demo_start = {||}"
    by (simp add: demo_start_def)
  from frontier_bookkeeping [OF tv, of demo_env] tv v0 demo_first_step show ?thesis
    by auto
qed

text \<open>
  The claim as it was stated has every dequeued URL added to the visited set. With the
  base URL \<^verbatim>\<open>https://[\<close>, which \<^verbatim>\<open>urlparse\<close> rejects, \<^verbatim>\<open>same_domain\<close> answers
  \<^verbatim>\<open>False\<close> for the seed: the only URL of the frontier is dequeued and dropped, and the
  run ends with an empty visited set.
\<close>

theorem dequeued_url_never_visited:
  "init bracket_env = Some bracket_start
   \<and> to_visit bracket_start = [''https://[/events/'']
   \<and> crawl_step bracket_env bracket_start = bracket_start\<lparr>to_visit := []\<rparr>
   \<and> to_visit (crawl_loop bracket_env bracket_start) = []
   \<and> visited_urls (crawl_loop bracket_env bracket_start) = {||}"
  using bracket_init bracket_run bracket_step by (simp add: bracket_start_def)

section \<open>The URL normalizer\<close>

text \<open>
  Claim C7: the URL normalizer is idempotent, \<^verbatim>\<open>normalize_url(normalize_url(u))\<close> equals
  \<^verbatim>\<open>normalize_url(u)\<close> for every string \<^verbatim>\<open>u\<close>. The code does not achieve this. The
  trailing slashes of the path are removed after \<^verbatim>\<open>urlparse\<close> has looked for the
  parameters of the last path segment, so on \<^verbatim>\<open>https://a.com/x/;/\<close> the first pass
  yields a path that ends in a semicolon, and the second pass reads that semicolon as an
  empty parameter list and drops it together with the slash before it.
\<close>

theorem normalize_url_twice_differs:
  "normalize_url ck ''https://a.com/x/;/'' = ''https://a.com/x/;''
   \<and> normalize_url ck (normalize_url ck ''https://a.com/x/;/'') = ''https://a.com/x''"
proof -
  have one: "normalize_url ck ''https://a.com/x/;/'' = ''https://a.com/x/;''"
    by code_simp
  have two: "normalize_url ck ''https://a.com/x/;'' = ''https://a.com/x''"
    by code_simp
  show ?thesis
    by (simp only: one two)
qed

section \<open>Link extraction\<close>

text \<open>
  Claim C8, as amended: for every HTML page and source URL, the list that
  \<^verbatim>\<open>extract_links\<close> returns has no duplicate entries and holds only links of the crawl's
  domain; the non-content path patterns (administrative panels, asset directories,
  syndication feeds, search query pages) are not excluded there but by the crawl loop,
  so that the links which the loop appends to the frontier are pairwise different, match
  none of the patterns, and were neither visited nor queued.
\<close>

theorem enqueued_links_filtered:
  "distinct (extract_links e b html u)
   \<and> (\<forall>l \<in> set (extract_links e b html u). same_domain (checks e) l b)
   \<and> enqueue_links vis tv (extract_links e b html u)
       = tv @ pushed vis tv (extract_links e b html u)
   \<and> distinct (pushed vis tv (extract_links e b html u))
   \<and> (\<forall>l \<in> set (pushed vis tv (extract_links e b html u)).
         \<not> non_content l \<and> l \<in> set (extract_links e b html u) \<and> l |\<notin>| vis \<and> l \<notin> set tv)"
  using extract_links_props [where e = e and b = b and html = html and u = u]
    pushed_props [where vis = vis and tv = tv and ls = "extract_links e b html u"]
  by blast

text \<open>The links of the events page of the small site, as the loop queues them.\<close>

theorem enqueued_links_filtered_witness:
  "pushed {|''https://x.edu/events''|} []
     (extract_links demo_env ''https://x.edu'' seed_html ''https://x.edu/events'')
     = [''https://x.edu/a'', ''https://x.edu/b'', ''https://x.edu/c'',
        ''https://x.edu/private'', ''https://x.edu/d'']
   \<and> \<not> non_content ''https://x.edu/a''
   \<and> same_domain (checks demo_env) ''https://x.edu/a'' ''https://x.edu''
   \<and> ''https://x.edu/wp-admin/z''
        \<notin> set (pushed {|''https://x.edu/events''|} []
                  (extract_links demo_env ''https://x.edu'' seed_html ''https://x.edu/events''))"
proof -
  note inst = enqueued_links_filtered [where e = demo_env and b = "''https://x.edu''"
      and html = seed_html and u = "''https://x.edu/events''"
      and vis = "{|''https://x.edu/events''|}" and tv = "[]"]
  have p: "pushed {|''https://x.edu/events''|} []
     (extract_links demo_env ''https://x.edu'' seed_html ''https://x.edu/events'')
     = [''https://x.edu/a'', ''https://x.edu/b'', ''https://x.edu/c'',
        ''https://x.edu/private'', ''https://x.edu/d'']"
    by (simp only: seed_links seed_pushed)
  have a: "''https://x.edu/a'' \<in> set (pushed {|''https://x.edu/events''|} []
     (extract_links demo_env ''https://x.edu'' seed_html ''https://x.edu/events''))"
    by (simp add: p)
  with inst have "\<not> non_content ''https://x.edu/a''"
    "same_domain (checks demo_env) ''https://x.edu/a'' ''https://x.edu''"
    by blast+
  moreover have "''https://x.edu/wp-admin/z''
        \<notin> set (pushed {|''https://x.edu/events''|} []
                  (extract_links demo_env ''https://x.edu'' seed_html ''https://x.edu/events''))"
    by (simp add: p)
  ultimately show ?thesis using p by blast
qed

text \<open>
  The claim as it was stated is about the list that the link extractor returns. The
  events page of the small site links to \<^verbatim>\<open>/wp-admin/z\<close>, and \<^verbatim>\<open>extract_links\<close>
  returns that link with the others.
\<close>

theorem extract_links_keeps_admin_link:
  "extract_links demo_env ''https://x.edu'' seed_html ''https://x.edu/events''
     = [''https://x.edu/a'', ''https://x.edu/b'', ''https://x.edu/c'',
        ''https://x.edu/wp-admin/z'', ''https://x.edu/private'', ''https://x.edu/d'']
   \<and> non_content ''https://x.edu/wp-admin/z''"
proof -
  have "non_content ''https://x.edu/wp-admin/z''" by code_simp
  with seed_links show ?thesis by simp
qed

section \<open>The aggregate file\<close>

text \<open>
  Claim C9, as amended: when at least one record has been accepted and the output files
  can be written, \<^verbatim>\<open>main\<close> writes the aggregate file with all accepted records exactly
  once after the crawl, whether \<^verbatim>\<open>crawl\<close> returned, was interrupted from the keyboard
  or was left by another exception; when no record has been accepted,
  \<^verbatim>\<open>save_aggregate\<close> returns at once and no aggregate file is written.
\<close>

theorem aggregate_flush:
  "(records s \<noteq> [] \<and> agg_write_ok e \<and> stats_write_ok e
      \<longrightarrow> filter is_aggregate (trace (snd (main_from e how s)))
            = filter is_aggregate (trace s) @ [WriteAggregate (records s)])
   \<and> (records s = []
      \<longrightarrow> filter is_aggregate (trace (snd (main_from e how s))) = filter is_aggregate (trace s))"
  by (cases how) (auto simp: save_aggregate_def close_def Let_def)

text \<open>After the run on the small site, for each way in which the crawl can end.\<close>

theorem aggregate_flush_witness:
  "records demo_final = [seed_record, alpha_record]
   \<and> agg_write_ok demo_env \<and> stats_write_ok demo_env
   \<and> filter is_aggregate (trace (snd (main_from demo_env Returned demo_final)))
       = [WriteAggregate [seed_record, alpha_record]]
   \<and> filter is_aggregate (trace (snd (main_from demo_env Interrupted demo_final)))
       = [WriteAggregate [seed_record, alpha_record]]
   \<and> filter is_aggregate (trace (snd (main_from demo_env Failed demo_final)))
       = [WriteAggregate [seed_record, alpha_record]]
   \<and> filter is_aggregate (trace (snd (main_from demo_env Failed demo_start))) = []"
proof -
  have r: "records demo_final = [seed_record, alpha_record]" "records demo_start = []"
    and t: "filter is_aggregate (trace demo_final) = []"
      "filter is_aggregate (trace demo_start) = []"
    by (simp_all add: demo_final_def demo_start_def)
  have w: "agg_write_ok demo_env" "stats_write_ok demo_env"
    by (simp_all add: demo_env_def)
  from aggregate_flush [of demo_final demo_env Returned]
       aggregate_flush [of demo_final demo_env Interrupted]
       aggregate_flush [of demo_final demo_env Failed]
       aggregate_flush [of demo_start demo_env Failed] r t w
  show ?thesis by simp
qed

text \<open>
  The claim as it was stated has the aggregate file written in every run. When every
  request fails, the run ends normally with no record, and the events of the whole run
  are one request, one tick of the progress bar and one pause.
\<close>

theorem no_records_no_aggregate:
  "main down_env = Some (Clean, down_final)
   \<and> records down_final = []
   \<and> trace down_final = [HttpGet ''https://x.edu/events'', Progress, Sleep]"
  using down_run by (simp add: down_final_def)

section \<open>The initial frontier\<close>



end
